theory Spec2Isabelle
  imports Main "HOL-Library.Multiset" "HOL-Library.Sublist"
begin

section \<open>Syntax trees, symbols and diagnostics\<close>

text \<open>
  The analyses of package \<open>linters\<close> walk Go syntax trees (\<open>go/ast\<close>) with
  \<open>ast.Inspect\<close> and resolve identifiers to \<open>types.Object\<close>s. The tree is
  embedded as one datatype of nodes. Every node kind that the analysed files
  distinguish has a constructor of its own; every other kind is \<open>Other\<close>, holding
  its children in the order in which \<open>ast.Walk\<close> visits them.
\<close>

type_synonym pos = nat

record ident =
  Name :: string
  NamePos :: pos

datatype node =
    Ident ident
  | SelectorExpr node ident
  | UnaryExpr string node
  | StarExpr node
  | ParenExpr node
  | CallExpr node "node list"
  | KeyValueExpr node node
  | CompositeLit "node option" "node list"
  | TypeAssertExpr node "node option"
  | IndexExpr node node
  | FuncLit node node
  | AssignStmt "node list" "node list"
  | ExprStmt node
  | ReturnStmt "node list"
  | Other string "node list"

text \<open>
  A \<open>types.Object\<close>: its identity, the text of its type (\<open>obj.Type().String()\<close>)
  and, when its type is a signature with a receiver, the text of the receiver's type.
\<close>

record object =
  obj_id :: nat
  obj_type :: string
  obj_recv :: "string option"

text \<open>
  What the analyses consume from outside the analysed files: the symbol resolver
  \<open>lintutil.ObjectFor\<close> (with its value on a nil identifier), \<open>lintutil.NameOf\<close>,
  \<open>types.LookupFieldOrMethod\<close> (type text and method name to the text of the
  method found) and the fact store's \<open>ImportObjectFact\<close> for the closer fact.
  They are parameters of the model.
\<close>

record pass =
  ObjectFor :: "node \<Rightarrow> object option"
  ObjectForNil :: "object option"
  NameOf :: "object option \<Rightarrow> string"
  LookupFieldOrMethod :: "string \<Rightarrow> string \<Rightarrow> string option"
  ImportObjectFact :: "object option \<Rightarrow> bool"

text \<open>
  Every \<open>pass.Reportf\<close> of the analysed files is positioned at an identifier
  (\<open>ident.Pos()\<close>); a diagnostic holds that identifier and the message with the
  values formatted into it.
\<close>

datatype message =
    MustReturnAfter string
  | LoggedTwice pos
  | LoggedAndReturned pos
  | NeedsToBeClosed string

datatype diagnostic = Diag ident message

fun d_ident :: "diagnostic \<Rightarrow> ident" where
  "d_ident (Diag i m) = i"


fun d_msg :: "diagnostic \<Rightarrow> message" where
  "d_msg (Diag i m) = m"

subsection \<open>Traversal\<close>

fun optNode :: "node option \<Rightarrow> node list" where
  "optNode None = []"
| "optNode (Some n) = [n]"

text \<open>The children of a node, in the order of \<open>ast.Walk\<close>; nil children are skipped.\<close>

fun children :: "node \<Rightarrow> node list" where
  "children (Ident i) = []"
| "children (SelectorExpr x sel) = [x, Ident sel]"
| "children (UnaryExpr op x) = [x]"
| "children (StarExpr x) = [x]"
| "children (ParenExpr x) = [x]"
| "children (CallExpr f args) = f # args"
| "children (KeyValueExpr k v) = [k, v]"
| "children (CompositeLit t elts) = optNode t @ elts"
| "children (TypeAssertExpr x t) = x # optNode t"
| "children (IndexExpr x i) = [x, i]"
| "children (FuncLit t b) = [t, b]"
| "children (AssignStmt lhs rhs) = lhs @ rhs"
| "children (ExprStmt x) = [x]"
| "children (ReturnStmt rs) = rs"
| "children (Other k cs) = cs"

lemma size_member: "c \<in> set xs \<Longrightarrow> size (c::node) \<le> size_list size xs"
  by (induction xs) auto

lemma set_optNode: "set (optNode t) = set_option t"
  by (cases t) auto

lemma children_size:
  assumes "c \<in> set (children n)"
  shows "size c < size n"
  using assms by (cases n) (auto simp: set_optNode dest: size_member)

text \<open>
  \<open>ast.Inspect(node, f)\<close>: depth first, \<open>f\<close> on the node and then, when \<open>f\<close>
  returned true, on each child in turn. The callbacks of the analysed files are
  closures that update captured variables; here a callback takes the captured
  state and returns it updated, beside its boolean. (The closing call \<open>f(nil)\<close>
  of \<open>ast.Inspect\<close> matches no case of any callback below and changes nothing.)
\<close>

function Inspect :: "(node \<Rightarrow> 's \<Rightarrow> bool \<times> 's) \<Rightarrow> node \<Rightarrow> 's \<Rightarrow> 's" where
  "Inspect f n s =
     (if fst (f n s) then fold (Inspect f) (children n) (snd (f n s)) else snd (f n s))"
  by pat_completeness auto
termination
  by (relation "measure (\<lambda>(f, n, s). size n)") (auto simp: children_size)

declare Inspect.simps [simp del]

text \<open>All the nodes of a tree, the node itself first.\<close>

function subnodes :: "node \<Rightarrow> node list" where
  "subnodes n = n # concat (map subnodes (children n))"
  by pat_completeness auto
termination
  by (relation "measure size") (auto simp: children_size)

declare subnodes.simps [simp del]

section \<open>Return immediately after http.Error (http\_return.go)\<close>




text \<open>A basic block of \<open>cfg.CFG\<close>; successors are indices into \<open>cfg.Blocks\<close>.\<close>

record block =
  Live :: bool
  Nodes :: "node list"
  Succs :: "nat list"





section \<open>Error results of a signature (log\_or\_return\_error\_lint.go)\<close>

text \<open>A field of a result list (\<open>ast.Field\<close>) and a signature (\<open>ast.FuncType\<close>).\<close>

record field =
  Names :: "ident list"
  Type :: node

record funcType =
  Params :: "field list"
  Results :: "field list option"

text \<open>
  The loop of \<open>_errorResultIndices\<close> with its counter \<open>i\<close>. On a result whose
  type is the identifier \<open>error\<close> the index is appended and the loop continues
  with the next result at once; otherwise \<open>i\<close> advances by the number of names,
  or by one for an unnamed result.
\<close>

fun errorResultLoop :: "nat \<Rightarrow> field list \<Rightarrow> nat list" where
  "errorResultLoop i [] = []"
| "errorResultLoop i (result # rest) =
     (if (case Type result of Ident ident \<Rightarrow> Name ident = ''error'' | _ \<Rightarrow> False)
      then i # errorResultLoop i rest
      else if length (Names result) > 0
           then errorResultLoop (i + length (Names result)) rest
           else errorResultLoop (i + 1) rest)"

definition errorResultIndices :: "funcType \<Rightarrow> nat list" where
  "errorResultIndices sig =
     (case Results sig of None \<Rightarrow> [] | Some fl \<Rightarrow> errorResultLoop 0 fl)"

text \<open>
  The statement of the specification, for comparison: the result positions whose
  declared type is the identifier \<open>error\<close>, a field with names standing for as
  many positions as it has names.
\<close>

definition fieldTypes :: "field \<Rightarrow> node list" where
  "fieldTypes f = replicate (if length (Names f) > 0 then length (Names f) else 1) (Type f)"

definition errorPositions_spec :: "funcType \<Rightarrow> nat list" where
  "errorPositions_spec sig =
     (case Results sig of
        None \<Rightarrow> []
      | Some fl \<Rightarrow>
          (let ts = concat (map fieldTypes fl)
           in filter (\<lambda>k. case ts ! k of Ident ident \<Rightarrow> Name ident = ''error'' | _ \<Rightarrow> False)
                [0 ..< length ts]))"

section \<open>Log or return, not both (log\_or\_return\_error\_lint.go)\<close>

text \<open>\<open>receiverIsLogger\<close> of log\_lint.go.\<close>

definition receiverIsLogger :: "object option \<Rightarrow> bool" where
  "receiverIsLogger funcObj =
     (case funcObj of
        None \<Rightarrow> False
      | Some ob \<Rightarrow> obj_recv ob = Some ''github.com/Khan/webapp/pkg/lib/log.Logger'')"

text \<open>
  The map \<open>loggedErrors\<close>: an object that is a key maps to nil (\<open>Some None\<close>) or to
  the position where it was logged. The maps are Go reference values: one is
  handed to a successor block either as it is or as a copy. They live in a store
  of maps by address, so that sharing is visible; \<open>traversedPaths\<close>, one map
  shared by all calls, and the reports so far complete the state.
\<close>

type_synonym loggedErrors = "object \<Rightarrow> pos option option"

record lintState =
  heap :: "nat \<Rightarrow> loggedErrors"
  nextAddr :: nat
  traversedPaths :: "nat \<times> nat \<Rightarrow> nat option"
  diags :: "diagnostic list"

definition setLogged :: "nat \<Rightarrow> object \<Rightarrow> pos option \<Rightarrow> lintState \<Rightarrow> lintState" where
  "setLogged a obj v st = st\<lparr>heap := (heap st)(a := (heap st a)(obj \<mapsto> v))\<rparr>"

definition reportf :: "diagnostic \<Rightarrow> lintState \<Rightarrow> lintState" where
  "reportf d st = st\<lparr>diags := diags st @ [d]\<rparr>"

text \<open>An assignment target: an identifier of type \<open>error\<close> is set to not yet logged.\<close>

definition assignTarget :: "pass \<Rightarrow> nat \<Rightarrow> node \<Rightarrow> lintState \<Rightarrow> lintState" where
  "assignTarget p a target st =
     (case target of
        Ident ident \<Rightarrow>
          (case ObjectFor p target of
             None \<Rightarrow> st
           | Some errorObj \<Rightarrow>
               if obj_type errorObj = ''error'' then setLogged a errorObj None st else st)
      | _ \<Rightarrow> st)"

text \<open>The callback of the walk inside a call to the logger.\<close>

definition loggedIdentVisit :: "pass \<Rightarrow> nat \<Rightarrow> node \<Rightarrow> lintState \<Rightarrow> bool \<times> lintState" where
  "loggedIdentVisit p a n st =
     (True,
      case n of
        Ident ident \<Rightarrow>
          (case ObjectFor p (Ident ident) of
             None \<Rightarrow> st
           | Some errorObj \<Rightarrow>
               (case heap st a errorObj of
                  None \<Rightarrow> st
                | Some alreadyLogged \<Rightarrow>
                    (case alreadyLogged of
                       Some logPos \<Rightarrow> reportf (Diag ident (LoggedTwice logPos)) st
                     | None \<Rightarrow> setLogged a errorObj (Some (NamePos ident)) st)))
      | _ \<Rightarrow> st)"

text \<open>The callback of the walk inside a returned value at an error position.\<close>

definition returnedIdentVisit :: "pass \<Rightarrow> nat \<Rightarrow> node \<Rightarrow> lintState \<Rightarrow> bool \<times> lintState" where
  "returnedIdentVisit p a n st =
     (True,
      case n of
        Ident ident \<Rightarrow>
          (case ObjectFor p (Ident ident) of
             None \<Rightarrow> st
           | Some errorObj \<Rightarrow>
               (case heap st a errorObj of
                  Some (Some logPos) \<Rightarrow> reportf (Diag ident (LoggedAndReturned logPos)) st
                | _ \<Rightarrow> st))
      | _ \<Rightarrow> st)"

definition returnedValue :: "pass \<Rightarrow> nat \<Rightarrow> node list \<Rightarrow> nat \<Rightarrow> lintState \<Rightarrow> lintState" where
  "returnedValue p a results idx st =
     (if idx \<ge> length results then st
      else Inspect (returnedIdentVisit p a) (results ! idx) st)"

text \<open>The callback of the walk over a node of a block.\<close>

definition blockVisit :: "pass \<Rightarrow> nat list \<Rightarrow> nat \<Rightarrow> node \<Rightarrow> lintState \<Rightarrow> bool \<times> lintState" where
  "blockVisit p errorReturnIndices a n st =
     (case n of
        AssignStmt lhs rhs \<Rightarrow> (True, fold (assignTarget p a) lhs st)
      | CallExpr f args \<Rightarrow>
          if \<not> receiverIsLogger (ObjectFor p f) then (True, st)
          else (False, Inspect (loggedIdentVisit p a) n st)
      | ReturnStmt results \<Rightarrow> (False, fold (returnedValue p a results) errorReturnIndices st)
      | FuncLit t b \<Rightarrow> (False, st)
      | _ \<Rightarrow> (True, st))"

text \<open>
  The edge counter: \<open>None\<close> when the edge has been traversed more than once
  (\<open>continue\<close>), else the state with the counter advanced.
\<close>

definition countEdge :: "nat \<times> nat \<Rightarrow> lintState \<Rightarrow> lintState option" where
  "countEdge e st =
     (case traversedPaths st e of
        Some seen \<Rightarrow>
          if seen > 1 then None
          else Some (st\<lparr>traversedPaths := (traversedPaths st)(e \<mapsto> seen + 1)\<rparr>)
      | None \<Rightarrow> Some (st\<lparr>traversedPaths := (traversedPaths st)(e \<mapsto> 1)\<rparr>))"

text \<open>
  \<open>forChild\<close>: the map of the current block itself for the last successor, a
  newly made copy for every other one (\<open>n\<close> is \<open>len(block.Succs)\<close>).
\<close>

definition forChild :: "nat \<Rightarrow> nat \<Rightarrow> nat \<Rightarrow> lintState \<Rightarrow> nat \<times> lintState" where
  "forChild a i n st =
     (if i < n - 1
      then (nextAddr st,
            st\<lparr>heap := (heap st)(nextAddr st := heap st a), nextAddr := Suc (nextAddr st)\<rparr>)
      else (a, st))"


text \<open>
  The loop over the successors \<open>(i, succ)\<close> of block \<open>b\<close>; \<open>rec\<close> is the
  recursive call, which may not return (\<open>None\<close>).
\<close>

fun succLoop ::
  "(nat \<Rightarrow> nat \<Rightarrow> lintState \<Rightarrow> lintState option) \<Rightarrow> nat \<Rightarrow> nat \<Rightarrow> nat \<Rightarrow> (nat \<times> nat) list
   \<Rightarrow> lintState \<Rightarrow> lintState option" where
  "succLoop rec b a n [] st = Some st"
| "succLoop rec b a n ((i, succ) # rest) st =
     (case countEdge (b, succ) st of
        None \<Rightarrow> succLoop rec b a n rest st
      | Some st1 \<Rightarrow>
          (case rec succ (fst (forChild a i n st1)) (snd (forChild a i n st1)) of
             None \<Rightarrow> None
           | Some st2 \<Rightarrow> succLoop rec b a n rest st2))"

text \<open>
  \<open>_checkBlockForLogsAndReturns\<close> on the block with index \<open>b\<close> and the map at
  address \<open>a\<close>. The recursion follows the edges of a graph that may have
  cycles; it is defined with a bound on its depth, and \<open>None\<close> says that the
  bound was reached. (A successor is a pointer in Go; an index outside the graph
  stands for no block and ends the call.)
\<close>

primrec checkBlockForLogsAndReturns ::
  "nat \<Rightarrow> pass \<Rightarrow> nat list \<Rightarrow> block list \<Rightarrow> nat \<Rightarrow> nat \<Rightarrow> lintState \<Rightarrow> lintState option" where
  "checkBlockForLogsAndReturns 0 p errorReturnIndices g b a st = None"
| "checkBlockForLogsAndReturns (Suc fuel) p errorReturnIndices g b a st =
     (if b \<ge> length g then Some st
      else if \<not> Live (g ! b) then Some st
      else succLoop (checkBlockForLogsAndReturns fuel p errorReturnIndices g) b a
             (length (Succs (g ! b))) (enumerate 0 (Succs (g ! b)))
             (fold (Inspect (blockVisit p errorReturnIndices a)) (Nodes (g ! b)) st))"

text \<open>
  \<open>_lintLogOrReturnErrors\<close>: one new map (at address 0), no edge traversed, no
  report yet; \<open>graph.Blocks[0]\<close> panics on a graph without blocks.
\<close>

datatype panic = IndexOutOfRange

definition initState :: lintState where
  "initState =
     \<lparr>heap = (\<lambda>a. Map.empty), nextAddr = 1, traversedPaths = Map.empty, diags = []\<rparr>"

definition lintLogOrReturnErrors ::
  "nat \<Rightarrow> pass \<Rightarrow> nat list \<Rightarrow> block list \<Rightarrow> (panic + diagnostic list) option" where
  "lintLogOrReturnErrors fuel p errorReturnIndices graph =
     (if length graph = 0 then Some (Inl IndexOutOfRange)
      else map_option (\<lambda>st. Inr (diags st))
             (checkBlockForLogsAndReturns fuel p errorReturnIndices graph 0 0 initState))"

text \<open>The edges of a graph, and the traversals that the counters still allow.\<close>

definition edges :: "block list \<Rightarrow> (nat \<times> nat) list" where
  "edges g = concat (map (\<lambda>b. map (\<lambda>s. (b, s)) (Succs (g ! b))) [0 ..< length g])"

definition traversals :: "lintState \<Rightarrow> nat \<times> nat \<Rightarrow> nat" where
  "traversals st e = (case traversedPaths st e of None \<Rightarrow> 0 | Some t \<Rightarrow> t)"

definition budget :: "block list \<Rightarrow> lintState \<Rightarrow> nat" where
  "budget g st = (\<Sum>e \<in> set (edges g). 2 - min 2 (traversals st e))"

text \<open>
  Two relations between the state before and after a piece of the analysis:
  only the map at address \<open>a\<close> may differ; and, of the maps that existed
  before, only the one at \<open>a\<close> may differ (new ones may have been made).
\<close>

definition touchesOnly :: "nat \<Rightarrow> lintState \<Rightarrow> lintState \<Rightarrow> bool" where
  "touchesOnly a st st' =
     (nextAddr st' = nextAddr st \<and> traversedPaths st' = traversedPaths st
      \<and> (\<forall>x. x \<noteq> a \<longrightarrow> heap st' x = heap st x))"


text \<open>
  The symbol \<open>e\<close> is assigned in a node (an identifier on the left of an
  assignment somewhere in the node resolves to it), or in a node of a block of
  the graph.
\<close>

definition assignsTo :: "pass \<Rightarrow> object \<Rightarrow> node \<Rightarrow> bool" where
  "assignsTo p e n =
     list_ex (\<lambda>m. case m of
                    AssignStmt lhs rhs \<Rightarrow>
                      list_ex (\<lambda>target. case target of
                                           Ident i \<Rightarrow> ObjectFor p target = Some e
                                         | _ \<Rightarrow> False) lhs
                  | _ \<Rightarrow> False)
       (subnodes n)"

definition assignedInGraph :: "pass \<Rightarrow> object \<Rightarrow> block list \<Rightarrow> bool" where
  "assignedInGraph p e g = list_ex (\<lambda>blk. list_ex (assignsTo p e) (Nodes blk)) g"

text \<open>
  The symbol \<open>e\<close> is a key of no map, and no report is positioned at an
  identifier that resolves to it.
\<close>

definition untracked :: "pass \<Rightarrow> object \<Rightarrow> lintState \<Rightarrow> bool" where
  "untracked p e st =
     ((\<forall>a. heap st a e = None)
      \<and> (\<forall>d \<in> set (diags st). ObjectFor p (Ident (d_ident d)) \<noteq> Some e))"

section \<open>Closables must be closed (always\_close.go)\<close>

definition isCloseMethod :: "string \<Rightarrow> bool" where
  "isCloseMethod method = suffix ''.Close() error'' method"

definition isClosable :: "pass \<Rightarrow> object option \<Rightarrow> bool" where
  "isClosable p obj =
     (case obj of
        None \<Rightarrow> False
      | Some ob \<Rightarrow>
          (case LookupFieldOrMethod p (obj_type ob) ''Close'' of
             None \<Rightarrow> False
           | Some method \<Rightarrow> isCloseMethod method))"

text \<open>
  \<open>_assignedFromNoOp\<close>, after \<open>from\<close> has been chosen: a type assertion, or a
  call of a selector named \<open>NopCloser\<close>.
\<close>

fun fromNoOp :: "node \<Rightarrow> bool" where
  "fromNoOp (TypeAssertExpr x t) = True"
| "fromNoOp (CallExpr (SelectorExpr x sel) args) = (Name sel = ''NopCloser'')"
| "fromNoOp n = False"

text \<open>
  \<open>from\<close> is \<open>rhs[0]\<close> when there is one right-hand side, else \<open>rhs[i]\<close>; an
  index out of range panics (\<open>None\<close>).
\<close>

definition assignedFromNoOp :: "node list \<Rightarrow> nat \<Rightarrow> bool option" where
  "assignedFromNoOp rhs i =
     (if length rhs = 1 then Some (fromNoOp (rhs ! 0))
      else if i < length rhs then Some (fromNoOp (rhs ! i))
      else None)"

fun identFromExpression :: "node \<Rightarrow> ident option" where
  "identFromExpression (Ident i) = Some i"
| "identFromExpression (SelectorExpr x sel) = Some sel"
| "identFromExpression (UnaryExpr op x) = identFromExpression x"
| "identFromExpression (StarExpr x) = identFromExpression x"
| "identFromExpression (ParenExpr x) = identFromExpression x"
| "identFromExpression (CallExpr f args) = identFromExpression f"
| "identFromExpression (KeyValueExpr k v) = identFromExpression v"
| "identFromExpression e = None"

text \<open>\<open>lintutil.ObjectFor(ident, ...)\<close> for an identifier that may be nil.\<close>

definition objectForIdent :: "pass \<Rightarrow> ident option \<Rightarrow> object option" where
  "objectForIdent p ident =
     (case ident of None \<Rightarrow> ObjectForNil p | Some i \<Rightarrow> ObjectFor p (Ident i))"

text \<open>\<open>_isCallToCloser\<close>, of the call's \<open>Fun\<close>.\<close>

definition isCallToCloser :: "pass \<Rightarrow> node \<Rightarrow> bool" where
  "isCallToCloser p callFun =
     (case identFromExpression callFun of
        None \<Rightarrow> False
      | Some ident \<Rightarrow> ImportObjectFact p (ObjectFor p (Ident ident)))"

text \<open>
  The map \<open>closables\<close> from objects to the identifier node that was assigned: a
  list of entries with at most one entry for a key. \<open>mapSet\<close> is
  \<open>closables[obj] = variable\<close>, \<open>mapDelete\<close> is \<open>delete(closables, obj)\<close>, whose
  key may be the nil object.
\<close>

type_synonym closables = "(object \<times> ident) list"

definition mapSet :: "object \<Rightarrow> ident \<Rightarrow> closables \<Rightarrow> closables" where
  "mapSet obj variable m = (obj, variable) # filter (\<lambda>e. fst e \<noteq> obj) m"

definition mapDelete :: "object option \<Rightarrow> closables \<Rightarrow> closables" where
  "mapDelete obj m = (case obj of None \<Rightarrow> m | Some ob \<Rightarrow> filter (\<lambda>e. fst e \<noteq> ob) m)"

text \<open>
  The first walk of \<open>_scanFuncDecl\<close>. The state is the map, or \<open>None\<close> once
  \<open>_assignedFromNoOp\<close> has panicked.
\<close>

fun collectLhs :: "pass \<Rightarrow> node list \<Rightarrow> nat \<Rightarrow> node list \<Rightarrow> closables option \<Rightarrow> closables option" where
  "collectLhs p rhs i [] st = st"
| "collectLhs p rhs i (variable # rest) st =
     collectLhs p rhs (i + 1) rest
       (case st of
          None \<Rightarrow> None
        | Some m \<Rightarrow>
            (case variable of
               Ident v \<Rightarrow>
                 (case ObjectFor p variable of
                    None \<Rightarrow> Some m
                  | Some obj \<Rightarrow>
                      if isClosable p (Some obj)
                      then (case assignedFromNoOp rhs i of
                              None \<Rightarrow> None
                            | Some noOp \<Rightarrow> if \<not> noOp then Some (mapSet obj v m) else Some m)
                      else Some m)
             | _ \<Rightarrow> Some m))"

definition collectVisit :: "pass \<Rightarrow> node \<Rightarrow> closables option \<Rightarrow> bool \<times> closables option" where
  "collectVisit p n st =
     (True, case n of AssignStmt lhs rhs \<Rightarrow> collectLhs p rhs 0 lhs st | _ \<Rightarrow> st)"

text \<open>
  The second walk. \<open>releases p n\<close> are the keys that the callback deletes at
  node \<open>n\<close>, in order: the arguments of a call to a closer, as \<open>ObjectFor\<close>
  resolves them; else the receiver of a call of a selector named \<open>Close\<close>; the
  identifiers of the right-hand sides of an assignment and of the elements of a
  composite literal (nil identifiers included); the identifiers of the results
  of a return (nil identifiers left out).
\<close>

definition releases :: "pass \<Rightarrow> node \<Rightarrow> object option list" where
  "releases p n =
     (case n of
        CallExpr f args \<Rightarrow>
          if isCallToCloser p f then map (ObjectFor p) args
          else (case f of
                  SelectorExpr x sel \<Rightarrow> if Name sel = ''Close'' then [ObjectFor p x] else []
                | _ \<Rightarrow> [])
      | AssignStmt lhs rhs \<Rightarrow> map (\<lambda>expr. objectForIdent p (identFromExpression expr)) rhs
      | CompositeLit t elts \<Rightarrow> map (\<lambda>expr. objectForIdent p (identFromExpression expr)) elts
      | ReturnStmt results \<Rightarrow>
          concat (map (\<lambda>expr. case identFromExpression expr of
                                None \<Rightarrow> []
                              | Some ident \<Rightarrow> [ObjectFor p (Ident ident)]) results)
      | _ \<Rightarrow> [])"

definition cancelVisit :: "pass \<Rightarrow> node \<Rightarrow> closables \<Rightarrow> bool \<times> closables" where
  "cancelVisit p n m = (True, fold mapDelete (releases p n) m)"

text \<open>The map after the first walk of \<open>_scanFuncDecl\<close>; \<open>None\<close> for a panic.\<close>

definition acquired :: "pass \<Rightarrow> node \<Rightarrow> closables option" where
  "acquired p funcDecl = Inspect (collectVisit p) funcDecl (Some [])"

text \<open>The map at the end of \<open>_scanFuncDecl\<close>, before the reports.\<close>

definition remainingClosables :: "pass \<Rightarrow> node \<Rightarrow> closables option" where
  "remainingClosables p funcDecl =
     (case acquired p funcDecl of
        None \<Rightarrow> None
      | Some m \<Rightarrow>
          if length m = 0 then Some []
          else Some (Inspect (cancelVisit p) funcDecl m))"

definition reportUnclosed :: "object \<times> ident \<Rightarrow> diagnostic" where
  "reportUnclosed e = Diag (snd e) (NeedsToBeClosed (obj_type (fst e)))"

text \<open>
  \<open>_scanFuncDecl\<close> ends with \<open>for obj, unclosed := range closables\<close>. Go leaves
  the iteration order of a map unspecified, so the analysis is a relation
  between the function and the list of reports of a run: one report for each
  entry of the map, in any order.
\<close>

definition scanFuncDecl :: "pass \<Rightarrow> node \<Rightarrow> diagnostic list \<Rightarrow> bool" where
  "scanFuncDecl p funcDecl ds =
     (case remainingClosables p funcDecl of
        None \<Rightarrow> False
      | Some m \<Rightarrow> mset ds = mset (map reportUnclosed m))"




section \<open>Examples\<close>

text \<open>
  Modelled from the spec: package \<open>lintutil\<close> (\<open>ObjectFor\<close>, \<open>NameOf\<close>) is not
  among the sources. Its interface section gives
  \<open>resolveSymbol(identifierOccurrence) -> Symbol | none\<close>: an identifier
  occurrence resolves to its symbol. A selector expression resolves through its
  selected identifier (the analysed files pass call targets such as
  \<open>logger.Warn\<close>), and no other expression resolves: \<open>_referencedVar\<close> of
  not\_found\_lint.go strips \<open>&\<close> and indexing itself after \<open>ObjectFor\<close> has
  returned nil. The examples below resolve identifiers by name.
\<close>

definition resolveSymbol :: "(string \<Rightarrow> object option) \<Rightarrow> node \<Rightarrow> object option" where
  "resolveSymbol env n =
     (case n of
        Ident i \<Rightarrow> env (Name i)
      | SelectorExpr x sel \<Rightarrow> env (Name sel)
      | _ \<Rightarrow> None)"

definition mkIdent :: "string \<Rightarrow> pos \<Rightarrow> ident" where
  "mkIdent s k = \<lparr>Name = s, NamePos = k\<rparr>"

definition mkObject :: "nat \<Rightarrow> string \<Rightarrow> object" where
  "mkObject k t = \<lparr>obj_id = k, obj_type = t, obj_recv = None\<rparr>"






definition handlerBlock :: "node list \<Rightarrow> block" where
  "handlerBlock ns = \<lparr>Live = True, Nodes = ns, Succs = []\<rparr>"

text \<open>The signature \<open>func() (error, int, error)\<close>.\<close>

definition sigErrorIntError :: funcType where
  "sigErrorIntError =
     \<lparr>Params = [],
      Results = Some [\<lparr>Names = [], Type = Ident (mkIdent ''error'' 1)\<rparr>,
                      \<lparr>Names = [], Type = Ident (mkIdent ''int'' 8)\<rparr>,
                      \<lparr>Names = [], Type = Ident (mkIdent ''error'' 13)\<rparr>]\<rparr>"


text \<open>
  A file-handling environment: variables \<open>r\<close> and \<open>s\<close> of type \<open>*os.File\<close>,
  a function \<open>open\<close> and a function \<open>closeIt\<close> that carries the closer fact.
\<close>

definition fileEnv :: "string \<Rightarrow> object option" where
  "fileEnv s =
     (if s = ''r'' then Some (mkObject 10 ''*os.File'')
      else if s = ''s'' then Some (mkObject 11 ''*os.File'')
      else if s = ''open'' then Some (mkObject 12 ''func() *os.File'')
      else if s = ''closeIt'' then Some (mkObject 13 ''func(f **os.File)'')
      else None)"

definition filePass :: pass where
  "filePass =
     \<lparr>ObjectFor = resolveSymbol fileEnv,
      ObjectForNil = None,
      NameOf = (\<lambda>obj. []),
      LookupFieldOrMethod =
        (\<lambda>t m. if t = ''*os.File'' \<and> m = ''Close''
                then Some ''func (*os.File).Close() error'' else None),
      ImportObjectFact = (\<lambda>obj. obj = Some (mkObject 13 ''func(f **os.File)''))\<rparr>"

definition funcDecl :: "node list \<Rightarrow> node" where
  "funcDecl body =
     Other ''FuncDecl'' [Ident (mkIdent ''f'' 6), Other ''FuncType'' [], Other ''BlockStmt'' body]"

text \<open>\<open>r := open()\<close> and \<open>s := open()\<close>.\<close>

definition openR :: node where
  "openR = AssignStmt [Ident (mkIdent ''r'' 20)] [CallExpr (Ident (mkIdent ''open'' 25)) []]"

definition openS :: node where
  "openS = AssignStmt [Ident (mkIdent ''s'' 40)] [CallExpr (Ident (mkIdent ''open'' 45)) []]"

text \<open>\<open>closeIt(r)\<close>, \<open>closeIt(&r)\<close> and \<open>return r\<close>.\<close>

definition closeItR :: node where
  "closeItR = ExprStmt (CallExpr (Ident (mkIdent ''closeIt'' 60)) [Ident (mkIdent ''r'' 68)])"

definition closeItAddrR :: node where
  "closeItAddrR =
     ExprStmt (CallExpr (Ident (mkIdent ''closeIt'' 60))
                        [UnaryExpr ''&'' (Ident (mkIdent ''r'' 69))])"

definition returnR :: node where
  "returnR = ReturnStmt [Ident (mkIdent ''r'' 87)]"

definition returnS :: node where
  "returnS = ReturnStmt [Ident (mkIdent ''s'' 87)]"

definition objR :: object where
  "objR = mkObject 10 ''*os.File''"

definition objS :: object where
  "objS = mkObject 11 ''*os.File''"

text \<open>
  An environment for logging: a variable \<open>err\<close> of type \<open>error\<close>, a function
  \<open>doX\<close>, a logger \<open>logger\<close> and its methods \<open>Warn\<close> and \<open>Error\<close>.
\<close>

definition objErr :: object where
  "objErr = mkObject 20 ''error''"

definition logEnv :: "string \<Rightarrow> object option" where
  "logEnv s =
     (if s = ''err'' then Some objErr
      else if s = ''doX'' then Some (mkObject 21 ''func() error'')
      else if s = ''logger'' then Some (mkObject 22 ''github.com/Khan/webapp/pkg/lib/log.Logger'')
      else if s = ''Warn'' \<or> s = ''Error''
      then Some \<lparr>obj_id = 23, obj_type = ''func(args ...interface{})'',
                 obj_recv = Some ''github.com/Khan/webapp/pkg/lib/log.Logger''\<rparr>
      else None)"

definition logPass :: pass where
  "logPass =
     \<lparr>ObjectFor = resolveSymbol logEnv,
      ObjectForNil = None,
      NameOf = (\<lambda>obj. []),
      LookupFieldOrMethod = (\<lambda>t m. None),
      ImportObjectFact = (\<lambda>obj. False)\<rparr>"

text \<open>\<open>err := doX()\<close>, \<open>logger.Warn(err)\<close>, \<open>return err\<close>.\<close>

definition assignErr :: node where
  "assignErr = AssignStmt [Ident (mkIdent ''err'' 10)] [CallExpr (Ident (mkIdent ''doX'' 17)) []]"

definition warnErr :: "pos \<Rightarrow> node" where
  "warnErr k =
     ExprStmt (CallExpr (SelectorExpr (Ident (mkIdent ''logger'' k)) (mkIdent ''Warn'' (k + 7)))
                        [Ident (mkIdent ''err'' (k + 12))])"

definition returnErr :: node where
  "returnErr = ReturnStmt [Ident (mkIdent ''err'' 57)]"

text \<open>The signature \<open>func() error\<close>.\<close>

definition sigError :: funcType where
  "sigError = \<lparr>Params = [], Results = Some [\<lparr>Names = [], Type = Ident (mkIdent ''error'' 3)\<rparr>]\<rparr>"



text \<open>A loop: block 0 is \<open>err := doX()\<close> and its own successor.\<close>

definition loopGraph :: "block list" where
  "loopGraph = [\<lparr>Live = True, Nodes = [assignErr], Succs = [0]\<rparr>]"

section \<open>Properties of the traversal\<close>


lemma fold_invariant:
  assumes "\<And>x s. x \<in> set xs \<Longrightarrow> P s \<Longrightarrow> P (g x s)" and "P s"
  shows "P (fold g xs s)"
  using assms by (induction xs arbitrary: s) auto


text \<open>Whatever the callback answers, it is applied to nodes of the tree only.\<close>

lemma Inspect_invariant:
  assumes "\<And>m s. m \<in> set (subnodes n) \<Longrightarrow> P s \<Longrightarrow> P (snd (f m s))" and "P s"
  shows "P (Inspect f n s)"
  using assms
proof (induction f n s rule: Inspect.induct)
  case (1 f n s)
  have self: "n \<in> set (subnodes n)"
    by (subst subnodes.simps) simp
  have sub: "m \<in> set (subnodes n)" if "c \<in> set (children n)" "m \<in> set (subnodes c)" for c m
    using that by (subst subnodes.simps) auto
  have here: "P (snd (f n s))"
    using "1.prems" self by blast
  show ?case
  proof (cases "fst (f n s)")
    case True
    have "P (fold (Inspect f) (children n) (snd (f n s)))"
    proof (rule fold_invariant[where P = P])
      fix c t assume c: "c \<in> set (children n)" and t: "P t"
      show "P (Inspect f c t)"
        using "1.IH"[OF True c, of t] "1.prems"(1) sub[OF c] t by blast
    qed (rule here)
    then show ?thesis
      by (subst Inspect.simps) (simp add: True)
  next
    case False
    then show ?thesis
      using here by (subst Inspect.simps) simp
  qed
qed

section \<open>Properties of the return-after-call analysis\<close>














section \<open>Properties of the error-result indices\<close>

text \<open>
  C3. The claim is that the computed indices are the positions of the results
  declared \<open>error\<close>. The loop does not advance its counter on an error result:
  for \<open>func() (error, int, error)\<close> it returns \<open>[0, 1]\<close>, while the error
  results stand at positions 0 and 2.
\<close>

theorem errorResultIndices_skips_increment:
  "errorResultIndices sigErrorIntError = [0, 1]
   \<and> errorPositions_spec sigErrorIntError = [0, 2]"
  by (simp add: errorResultIndices_def errorPositions_spec_def sigErrorIntError_def
      mkIdent_def fieldTypes_def upt_conv_Cons)

section \<open>Properties of the ownership tracker\<close>

















lemmas file_example_defs =
  funcDecl_def openR_def openS_def closeItR_def closeItAddrR_def returnR_def returnS_def
  objR_def objS_def filePass_def fileEnv_def resolveSymbol_def mkIdent_def mkObject_def

lemmas tracker_defs =
  remainingClosables_def acquired_def Inspect.simps collectVisit_def cancelVisit_def
  releases_def isCallToCloser_def objectForIdent_def isClosable_def isCloseMethod_def
  assignedFromNoOp_def mapSet_def mapDelete_def suffix_to_prefix





text \<open>
  C9. The claim is that a closer call releases the tracked symbol also when the
  argument is \<open>&r\<close>. The closer case resolves each argument with \<open>ObjectFor\<close>
  alone, without \<open>_identFromExpression\<close>: with a resolver of identifiers,
  \<open>r := open(); closeIt(r)\<close> leaves nothing to report, while
  \<open>r := open(); closeIt(&r)\<close> leaves \<open>r\<close> in the map and reports it.
\<close>

theorem closer_with_address_not_released:
  "remainingClosables filePass (funcDecl [openR, closeItR]) = Some []
   \<and> remainingClosables filePass (funcDecl [openR, closeItAddrR])
       = Some [(objR, mkIdent ''r'' 20)]
   \<and> scanFuncDecl filePass (funcDecl [openR, closeItAddrR])
       [Diag (mkIdent ''r'' 20) (NeedsToBeClosed ''*os.File'')]
   \<and> identFromExpression (UnaryExpr ''&'' (Ident (mkIdent ''r'' 69))) = Some (mkIdent ''r'' 69)"
proof -
  have a: "remainingClosables filePass (funcDecl [openR, closeItR]) = Some []"
    by (simp add: tracker_defs file_example_defs)
  have b: "remainingClosables filePass (funcDecl [openR, closeItAddrR])
           = Some [(objR, mkIdent ''r'' 20)]"
    by (simp add: tracker_defs file_example_defs)
  show ?thesis
    by (simp add: a b scanFuncDecl_def reportUnclosed_def objR_def mkObject_def)
qed

section \<open>Properties of the log-or-return analysis\<close>

lemmas visit_defs =
  blockVisit_def assignTarget_def loggedIdentVisit_def returnedIdentVisit_def
  returnedValue_def setLogged_def reportf_def

lemmas log_example_defs =
  logPass_def logEnv_def objErr_def assignErr_def warnErr_def returnErr_def sigError_def
  resolveSymbol_def mkIdent_def mkObject_def handlerBlock_def

text \<open>
  C4. For a function whose only result is of type \<open>error\<close> and whose body is the
  one block \<open>err := doX(); logger.Warn(err); return err\<close>, where the three
  occurrences of \<open>err\<close> resolve to one symbol of type \<open>error\<close>, \<open>logger.Warn\<close>
  is a method of the logger and \<open>doX\<close> is not, the analysis emits exactly one
  diagnostic: logged and returned, naming the position of the log, and positioned
  at the occurrence of \<open>err\<close> in the return statement.
\<close>

theorem logged_then_returned:
  assumes "ObjectFor p (Ident errA) = Some e"
    and "ObjectFor p (Ident errL) = Some e"
    and "ObjectFor p (Ident errR) = Some e"
    and "obj_type e = ''error''"
    and "\<not> receiverIsLogger (ObjectFor p (Ident doX))"
    and "receiverIsLogger (ObjectFor p (SelectorExpr (Ident logger) warn))"
    and "ObjectFor p (Ident logger) \<noteq> Some e"
    and "ObjectFor p (Ident warn) \<noteq> Some e"
    and "Results sig = Some [\<lparr>Names = ns, Type = Ident errorType\<rparr>]"
    and "Name errorType = ''error''"
    and "length ns \<le> 1"
  shows "lintLogOrReturnErrors (Suc fuel) p (errorResultIndices sig)
           [\<lparr>Live = True,
             Nodes = [AssignStmt [Ident errA] [CallExpr (Ident doX) []],
                      ExprStmt (CallExpr (SelectorExpr (Ident logger) warn) [Ident errL]),
                      ReturnStmt [Ident errR]],
             Succs = []\<rparr>]
         = Some (Inr [Diag errR (LoggedAndReturned (NamePos errL))])"
proof -
  have idx: "errorResultIndices sig = [0]"
    using assms(9,10) by (simp add: errorResultIndices_def)
  show ?thesis
    using assms(1-8)
    by (simp add: idx lintLogOrReturnErrors_def initState_def Inspect.simps visit_defs
        split: option.splits)
qed

theorem logged_then_returned_witness:
  "lintLogOrReturnErrors 1 logPass (errorResultIndices sigError)
     [handlerBlock [assignErr, warnErr 30, returnErr]]
   = Some (Inr [Diag (mkIdent ''err'' 57) (LoggedAndReturned 42)])"
  using logged_then_returned
    [of logPass "mkIdent ''err'' 10" objErr "mkIdent ''err'' 42" "mkIdent ''err'' 57"
        "mkIdent ''doX'' 17" "mkIdent ''logger'' 30" "mkIdent ''Warn'' 37" sigError
        "[]" "mkIdent ''error'' 3" 0]
  by (simp add: log_example_defs receiverIsLogger_def)


subsection \<open>What a call may change\<close>

lemma touchesOnly_refl: "touchesOnly a st st"
  by (simp add: touchesOnly_def)

lemma touchesOnly_trans:
  "touchesOnly a st st1 \<Longrightarrow> touchesOnly a st1 st2 \<Longrightarrow> touchesOnly a st st2"
  by (simp add: touchesOnly_def)

lemma assignTarget_touches: "touchesOnly a st (assignTarget p a t st)"
  by (auto simp: touchesOnly_def assignTarget_def setLogged_def split: node.splits option.splits)

lemma loggedIdentVisit_touches: "touchesOnly a st (snd (loggedIdentVisit p a n st))"
  by (auto simp: touchesOnly_def loggedIdentVisit_def setLogged_def reportf_def
      split: node.splits option.splits)

lemma returnedIdentVisit_touches: "touchesOnly a st (snd (returnedIdentVisit p a n st))"
  by (auto simp: touchesOnly_def returnedIdentVisit_def reportf_def
      split: node.splits option.splits)

lemma Inspect_touches:
  assumes "\<And>m s. touchesOnly a s (snd (f m s))"
  shows "touchesOnly a st (Inspect f n st)"
proof (rule Inspect_invariant[where P = "touchesOnly a st"])
  show "touchesOnly a st (snd (f m s))" if "touchesOnly a st s" for m s
    using that assms[of s m] by (rule touchesOnly_trans)
qed (rule touchesOnly_refl)

lemma fold_touches:
  assumes "\<And>x s. touchesOnly a s (g x s)"
  shows "touchesOnly a st (fold g xs st)"
proof (rule fold_invariant[where P = "touchesOnly a st"])
  show "touchesOnly a st (g x s)" if "touchesOnly a st s" for x s
    using that assms[of s x] by (rule touchesOnly_trans)
qed (rule touchesOnly_refl)

lemma returnedValue_touches: "touchesOnly a st (returnedValue p a results idx st)"
  by (simp add: returnedValue_def touchesOnly_refl Inspect_touches returnedIdentVisit_touches)

lemma blockVisit_touches: "touchesOnly a st (snd (blockVisit p idxs a n st))"
  by (cases n)
     (simp_all add: blockVisit_def touchesOnly_refl fold_touches assignTarget_touches
       Inspect_touches loggedIdentVisit_touches returnedValue_touches)

lemma scan_touches:
  "touchesOnly a st (fold (Inspect (blockVisit p idxs a)) ns st)"
  by (intro fold_touches Inspect_touches blockVisit_touches)














subsection \<open>Termination\<close>

lemma budget_cong: "traversedPaths st' = traversedPaths st \<Longrightarrow> budget g st' = budget g st"
  by (simp add: budget_def traversals_def)

lemma countEdge_None: "(countEdge e st = None) = (1 < traversals st e)"
  by (auto simp: countEdge_def traversals_def split: option.splits)

lemma countEdge_Some:
  assumes "countEdge e st = Some st1"
  shows "traversals st e \<le> 1"
    and "traversals st1 = (traversals st)(e := traversals st e + 1)"
  using assms
  by (auto simp: countEdge_def traversals_def fun_eq_iff split: option.splits if_splits)

lemma budget_countEdge:
  assumes "countEdge e st = Some st1" and "e \<in> set (edges g)"
  shows "budget g st1 < budget g st"
  unfolding budget_def
proof (rule sum_strict_mono_ex1)
  show "finite (set (edges g))" by simp
  show "\<forall>x \<in> set (edges g). 2 - min 2 (traversals st1 x) \<le> 2 - min 2 (traversals st x)"
    using countEdge_Some[OF assms(1)] by auto
  show "\<exists>x \<in> set (edges g). 2 - min 2 (traversals st1 x) < 2 - min 2 (traversals st x)"
    using countEdge_Some[OF assms(1)] assms(2) by (intro bexI[of _ e]) auto
qed

lemma budget_forChild: "budget g (snd (forChild a i n st)) = budget g st"
  by (rule budget_cong) (simp add: forChild_def)

lemma succLoop_total:
  assumes rec: "\<And>s c st. budget g st < f \<Longrightarrow>
                  \<exists>st'. rec s c st = Some st' \<and> budget g st' \<le> budget g st"
  shows "\<forall>x \<in> set xs. (b, snd x) \<in> set (edges g) \<Longrightarrow> budget g st \<le> f \<Longrightarrow>
         \<exists>st'. succLoop rec b a n xs st = Some st' \<and> budget g st' \<le> budget g st"
proof (induction xs arbitrary: st)
  case Nil
  then show ?case by simp
next
  case (Cons x xs)
  obtain i s where x: "x = (i, s)" by (cases x)
  have e: "(b, s) \<in> set (edges g)" using Cons.prems(1) x by simp
  have rest: "\<forall>x \<in> set xs. (b, snd x) \<in> set (edges g)" using Cons.prems(1) by simp
  show ?case
  proof (cases "countEdge (b, s) st")
    case None
    then show ?thesis
      using Cons.IH[OF rest Cons.prems(2)] x by simp
  next
    case (Some st1)
    let ?st = "snd (forChild a i n st1)"
    have less: "budget g ?st < budget g st"
      using budget_countEdge[OF Some e] by (simp add: budget_forChild)
    then have "budget g ?st < f"
      using Cons.prems(2) by simp
    from rec[OF this, of s "fst (forChild a i n st1)"] obtain st2 where
      run: "rec s (fst (forChild a i n st1)) ?st = Some st2"
      and le: "budget g st2 \<le> budget g ?st"
      by blast
    have "budget g st2 \<le> f"
      using le less Cons.prems(2) by simp
    from Cons.IH[OF rest this] obtain st' where
      "succLoop rec b a n xs st2 = Some st'" "budget g st' \<le> budget g st2"
      by blast
    then show ?thesis
      using Some run le less x by simp
  qed
qed

lemma edge_of_graph:
  assumes "b < length g" and "s \<in> set (Succs (g ! b))"
  shows "(b, s) \<in> set (edges g)"
  using assms by (auto simp: edges_def intro!: bexI[of _ b])

lemma enumerate_snd: "x \<in> set (enumerate k xs) \<Longrightarrow> snd x \<in> set xs"
  by (cases x) (auto simp: enumerate_eq_zip dest: set_zip_rightD)

lemma checkBlock_total:
  "budget g st < fuel \<Longrightarrow>
   \<exists>st'. checkBlockForLogsAndReturns fuel p idxs g b a st = Some st'
         \<and> budget g st' \<le> budget g st"
proof (induction fuel arbitrary: b a st)
  case 0
  then show ?case by simp
next
  case (Suc fuel)
  let ?scan = "fold (Inspect (blockVisit p idxs a)) (Nodes (g ! b)) st"
  let ?rec = "checkBlockForLogsAndReturns fuel p idxs g"
  show ?case
  proof (cases "b \<ge> length g \<or> \<not> Live (g ! b)")
    case True
    then have "checkBlockForLogsAndReturns (Suc fuel) p idxs g b a st = Some st"
      by auto
    then show ?thesis by simp
  next
    case False
    then have b: "b < length g" and live: "Live (g ! b)"
      by simp_all
    have same: "budget g ?scan = budget g st"
      using scan_touches[of a st p idxs "Nodes (g ! b)"]
      by (intro budget_cong) (simp add: touchesOnly_def)
    have es: "\<forall>x \<in> set (enumerate 0 (Succs (g ! b))). (b, snd x) \<in> set (edges g)"
    proof
      fix x assume "x \<in> set (enumerate 0 (Succs (g ! b)))"
      then have "snd x \<in> set (Succs (g ! b))" by (rule enumerate_snd)
      with b show "(b, snd x) \<in> set (edges g)" by (rule edge_of_graph)
    qed
    have le: "budget g ?scan \<le> fuel"
      using Suc.prems same by simp
    have recf: "\<exists>st'. ?rec s c st = Some st' \<and> budget g st' \<le> budget g st"
      if "budget g st < fuel" for s c st
      using that by (rule Suc.IH)
    from succLoop_total[where rec = ?rec and f = fuel and g = g, OF recf es le]
    obtain st' where
      loop: "succLoop ?rec b a (length (Succs (g ! b))) (enumerate 0 (Succs (g ! b))) ?scan
             = Some st'"
      and le': "budget g st' \<le> budget g ?scan"
      by blast
    have "checkBlockForLogsAndReturns (Suc fuel) p idxs g b a st = Some st'"
      using b live loop by simp
    moreover have "budget g st' \<le> budget g st"
      using le' same by simp
    ultimately show ?thesis by blast
  qed
qed

lemma budget_initState: "budget g initState \<le> 2 * length (edges g)"
proof -
  have "budget g initState = 2 * card (set (edges g))"
    by (simp add: budget_def traversals_def initState_def)
  then show ?thesis
    using card_length[of "edges g"] by simp
qed


subsection \<open>The edge counters\<close>

lemma traversals_cong: "traversedPaths st' = traversedPaths st \<Longrightarrow> traversals st' = traversals st"
  by (simp add: traversals_def fun_eq_iff)

lemma countEdge_bounded:
  assumes "countEdge e st = Some st1" and "\<forall>x. traversals st x \<le> 2"
  shows "\<forall>x. traversals st1 x \<le> 2"
  using countEdge_Some[OF assms(1)] assms(2) by auto

lemma forChild_traversals: "traversals (snd (forChild a i n st)) = traversals st"
  by (rule traversals_cong) (simp add: forChild_def)

lemma succLoop_bounded:
  assumes rec: "\<And>s c st st'. rec s c st = Some st' \<Longrightarrow> \<forall>x. traversals st x \<le> 2 \<Longrightarrow>
                  \<forall>x. traversals st' x \<le> 2"
  shows "succLoop rec b a n xs st = Some st' \<Longrightarrow> \<forall>x. traversals st x \<le> 2 \<Longrightarrow>
         \<forall>x. traversals st' x \<le> 2"
proof (induction xs arbitrary: st)
  case Nil
  then show ?case by simp
next
  case (Cons x xs)
  obtain i s where x: "x = (i, s)" by (cases x)
  show ?case
  proof (cases "countEdge (b, s) st")
    case None
    then show ?thesis using Cons x by simp
  next
    case (Some st1)
    then obtain st2 where
      run: "rec s (fst (forChild a i n st1)) (snd (forChild a i n st1)) = Some st2"
      and rest: "succLoop rec b a n xs st2 = Some st'"
      using Cons.prems(1) x by (auto split: option.splits)
    have "\<forall>x. traversals (snd (forChild a i n st1)) x \<le> 2"
      using countEdge_bounded[OF Some Cons.prems(2)] by (simp add: forChild_traversals)
    from rec[OF run this] have "\<forall>x. traversals st2 x \<le> 2" .
    from Cons.IH[OF rest this] show ?thesis .
  qed
qed

lemma checkBlock_bounded:
  "checkBlockForLogsAndReturns fuel p idxs g b a st = Some st' \<Longrightarrow>
   \<forall>x. traversals st x \<le> 2 \<Longrightarrow> \<forall>x. traversals st' x \<le> 2"
proof (induction fuel arbitrary: b a st st')
  case 0
  then show ?case by simp
next
  case (Suc fuel)
  let ?scan = "fold (Inspect (blockVisit p idxs a)) (Nodes (g ! b)) st"
  let ?rec = "checkBlockForLogsAndReturns fuel p idxs g"
  show ?case
  proof (cases "b \<ge> length g \<or> \<not> Live (g ! b)")
    case True
    then have "st' = st"
      using Suc.prems(1) by (simp split: if_splits)
    then show ?thesis using Suc.prems(2) by simp
  next
    case False
    then have loop: "succLoop ?rec b a (length (Succs (g ! b))) (enumerate 0 (Succs (g ! b)))
                       ?scan = Some st'"
      using Suc.prems(1) by simp
    have "traversals ?scan = traversals st"
      using scan_touches[of a st p idxs "Nodes (g ! b)"]
      by (intro traversals_cong) (simp add: touchesOnly_def)
    then have scan: "\<forall>x. traversals ?scan x \<le> 2"
      using Suc.prems(2) by simp
    have recf: "\<forall>x. traversals s' x \<le> 2"
      if "?rec k c s = Some s'" "\<forall>x. traversals s x \<le> 2" for k c s s'
      using that by (rule Suc.IH)
    show ?thesis
      by (rule succLoop_bounded[where rec = ?rec, OF recf loop scan])
  qed
qed

subsection \<open>More fuel, same result\<close>

lemma succLoop_mono:
  assumes rec: "\<And>s c st r. rec s c st = Some r \<Longrightarrow> rec' s c st = Some r"
  shows "succLoop rec b a n xs st = Some r \<Longrightarrow> succLoop rec' b a n xs st = Some r"
proof (induction xs arbitrary: st)
  case Nil
  then show ?case by simp
next
  case (Cons x xs)
  obtain i s where x: "x = (i, s)" by (cases x)
  show ?case
  proof (cases "countEdge (b, s) st")
    case None
    then show ?thesis using Cons x by simp
  next
    case (Some st1)
    then obtain st2 where
      run: "rec s (fst (forChild a i n st1)) (snd (forChild a i n st1)) = Some st2"
      and rest: "succLoop rec b a n xs st2 = Some r"
      using Cons.prems(1) x by (auto split: option.splits)
    from rec[OF run] Cons.IH[OF rest] show ?thesis
      using Some x by simp
  qed
qed

lemma checkBlock_more_fuel:
  "checkBlockForLogsAndReturns fuel p idxs g b a st = Some r \<Longrightarrow> fuel \<le> fuel' \<Longrightarrow>
   checkBlockForLogsAndReturns fuel' p idxs g b a st = Some r"
proof (induction fuel arbitrary: fuel' b a st r)
  case 0
  then show ?case by simp
next
  case (Suc fuel)
  then obtain k where k: "fuel' = Suc k" and le: "fuel \<le> k"
    by (cases fuel') auto
  let ?scan = "fold (Inspect (blockVisit p idxs a)) (Nodes (g ! b)) st"
  show ?case
  proof (cases "b \<ge> length g \<or> \<not> Live (g ! b)")
    case True
    then have "r = st"
      using Suc.prems(1) by (simp split: if_splits)
    with True show ?thesis by (auto simp: k)
  next
    case False
    then have loop: "succLoop (checkBlockForLogsAndReturns fuel p idxs g) b a
                       (length (Succs (g ! b))) (enumerate 0 (Succs (g ! b))) ?scan = Some r"
      using Suc.prems(1) by simp
    have recf: "checkBlockForLogsAndReturns k p idxs g s c t = Some q"
      if "checkBlockForLogsAndReturns fuel p idxs g s c t = Some q" for s c t q
      using that le by (rule Suc.IH)
    have "succLoop (checkBlockForLogsAndReturns k p idxs g) b a
            (length (Succs (g ! b))) (enumerate 0 (Succs (g ! b))) ?scan = Some r"
      by (rule succLoop_mono[where rec = "checkBlockForLogsAndReturns fuel p idxs g",
            OF recf loop])
    then show ?thesis
      using False by (simp add: k)
  qed
qed

text \<open>
  C7. An edge whose counter is above 1 is skipped, and traversing an edge
  advances its counter by one; started as \<open>_lintLogOrReturnErrors\<close> starts it,
  on any graph, cyclic or not, the traversal returns once the depth allowed
  exceeds twice the number of edges, every counter is then at most 2, and a
  larger allowance changes nothing.
\<close>

theorem bounded_traversal_terminates:
  assumes "2 * length (edges g) < fuel"
  shows "(\<exists>st'. checkBlockForLogsAndReturns fuel p idxs g 0 0 initState = Some st'
            \<and> (\<forall>e. traversals st' e \<le> 2)
            \<and> (\<forall>fuel'. fuel \<le> fuel' \<longrightarrow>
                  checkBlockForLogsAndReturns fuel' p idxs g 0 0 initState = Some st'))
         \<and> lintLogOrReturnErrors fuel p idxs g \<noteq> None
         \<and> (\<forall>e st. (countEdge e st = None) = (1 < traversals st e))
         \<and> (\<forall>e st st1. countEdge e st = Some st1 \<longrightarrow> traversals st1 e = traversals st e + 1)"
proof -
  have "budget g initState < fuel"
    using budget_initState[of g] assms by simp
  from checkBlock_total[OF this, of p idxs 0 0] obtain st' where
    run: "checkBlockForLogsAndReturns fuel p idxs g 0 0 initState = Some st'"
    by blast
  have "\<forall>x. traversals initState x \<le> 2"
    by (simp add: traversals_def initState_def)
  from checkBlock_bounded[OF run this] have bound: "\<forall>e. traversals st' e \<le> 2" .
  have more: "\<forall>fuel'. fuel \<le> fuel' \<longrightarrow>
                checkBlockForLogsAndReturns fuel' p idxs g 0 0 initState = Some st'"
    using checkBlock_more_fuel[OF run] by blast
  have "lintLogOrReturnErrors fuel p idxs g \<noteq> None"
    using run by (simp add: lintLogOrReturnErrors_def)
  moreover have "\<forall>e st st1. countEdge e st = Some st1
                   \<longrightarrow> traversals st1 e = traversals st e + 1"
    using countEdge_Some(2) by simp
  ultimately show ?thesis
    using run bound more countEdge_None by blast
qed


lemma checkBlock_numeral:
  "checkBlockForLogsAndReturns (numeral v) p idxs g b a st
   = (if b \<ge> length g then Some st
      else if \<not> Live (g ! b) then Some st
      else succLoop (checkBlockForLogsAndReturns (pred_numeral v) p idxs g) b a
             (length (Succs (g ! b))) (enumerate 0 (Succs (g ! b)))
             (fold (Inspect (blockVisit p idxs a)) (Nodes (g ! b)) st))"
  by (simp add: numeral_eq_Suc)

lemmas lint_eval_defs =
  lintLogOrReturnErrors_def checkBlock_numeral initState_def countEdge_def forChild_def
  Inspect.simps visit_defs log_example_defs receiverIsLogger_def

lemma edges_loopGraph: "edges loopGraph = [(0, 0)]"
  by (simp add: edges_def loopGraph_def)

lemma loopGraph_enough: "lintLogOrReturnErrors 3 logPass [0] loopGraph = Some (Inr [])"
  by (simp add: lint_eval_defs loopGraph_def)

lemma loopGraph_short: "lintLogOrReturnErrors 2 logPass [0] loopGraph = None"
  by (simp add: lint_eval_defs loopGraph_def)

theorem bounded_traversal_terminates_witness:
  "2 * length (edges loopGraph) < 3
   \<and> lintLogOrReturnErrors 3 logPass [0] loopGraph = Some (Inr [])
   \<and> lintLogOrReturnErrors 2 logPass [0] loopGraph = None"
  using bounded_traversal_terminates[of loopGraph 3 logPass "[0]"]
  by (simp add: edges_loopGraph loopGraph_enough loopGraph_short)

subsection \<open>Symbols that are never assigned\<close>

lemma assignTarget_untracked:
  assumes "untracked p e st"
    and "\<And>i. t = Ident i \<Longrightarrow> ObjectFor p t \<noteq> Some e"
  shows "untracked p e (assignTarget p a t st)"
  using assms
  by (cases t) (auto simp: untracked_def assignTarget_def setLogged_def split: option.splits)

lemma loggedIdentVisit_untracked:
  "untracked p e st \<Longrightarrow> untracked p e (snd (loggedIdentVisit p a n st))"
  by (cases n)
     (auto simp: untracked_def loggedIdentVisit_def setLogged_def reportf_def
       split: option.splits)

lemma returnedIdentVisit_untracked:
  "untracked p e st \<Longrightarrow> untracked p e (snd (returnedIdentVisit p a n st))"
  by (cases n)
     (auto simp: untracked_def returnedIdentVisit_def reportf_def split: option.splits)

lemma returnedValue_untracked:
  "untracked p e st \<Longrightarrow> untracked p e (returnedValue p a results idx st)"
  unfolding returnedValue_def
  by (auto intro: Inspect_invariant[where P = "untracked p e"] returnedIdentVisit_untracked)


lemma blockVisit_untracked:
  assumes "untracked p e st"
    and "\<And>lhs rhs t i. n = AssignStmt lhs rhs \<Longrightarrow> t \<in> set lhs \<Longrightarrow> t = Ident i \<Longrightarrow>
           ObjectFor p t \<noteq> Some e"
  shows "untracked p e (snd (blockVisit p idxs a n st))"
proof (cases n)
  case (AssignStmt lhs rhs)
  have "untracked p e (fold (assignTarget p a) lhs st)"
  proof (rule fold_invariant[where P = "untracked p e"])
    show "untracked p e (assignTarget p a t s)" if "t \<in> set lhs" "untracked p e s" for t s
      using that assms(2)[OF AssignStmt] by (intro assignTarget_untracked) auto
  qed (rule assms(1))
  then show ?thesis by (simp add: blockVisit_def AssignStmt)
next
  case (CallExpr f args)
  have "untracked p e (Inspect (loggedIdentVisit p a) n st)"
    by (rule Inspect_invariant[where P = "untracked p e"])
       (auto intro: loggedIdentVisit_untracked assms(1))
  then show ?thesis using assms(1) by (simp add: blockVisit_def CallExpr)
next
  case (ReturnStmt results)
  have "untracked p e (fold (returnedValue p a results) idxs st)"
    by (rule fold_invariant[where P = "untracked p e"])
       (auto intro: returnedValue_untracked assms(1))
  then show ?thesis by (simp add: blockVisit_def ReturnStmt)
qed (use assms(1) in \<open>simp_all add: blockVisit_def\<close>)

lemma not_assignsTo:
  assumes "\<not> assignsTo p e n" and "m \<in> set (subnodes n)" and "m = AssignStmt lhs rhs"
    and "t \<in> set lhs" and "t = Ident i"
  shows "ObjectFor p t \<noteq> Some e"
proof
  assume obj: "ObjectFor p t = Some e"
  have inner: "\<exists>target \<in> set lhs. (case target of Ident i \<Rightarrow> ObjectFor p target = Some e
                                       | _ \<Rightarrow> False)"
    using assms(4) by (rule bexI[of _ t, rotated]) (simp add: assms(5) obj[unfolded assms(5)])
  have "\<exists>m \<in> set (subnodes n).
          (case m of
             AssignStmt lhs rhs \<Rightarrow>
               list_ex (\<lambda>target. case target of Ident i \<Rightarrow> ObjectFor p target = Some e
                                 | _ \<Rightarrow> False) lhs
           | _ \<Rightarrow> False)"
    using assms(2) by (rule bexI[of _ m, rotated]) (simp add: assms(3) list_ex_iff inner)
  then have "assignsTo p e n"
    by (simp add: assignsTo_def list_ex_iff)
  with assms(1) show False by simp
qed

lemma scan_untracked:
  assumes "untracked p e st" and "\<forall>n \<in> set ns. \<not> assignsTo p e n"
  shows "untracked p e (fold (Inspect (blockVisit p idxs a)) ns st)"
proof (rule fold_invariant[where P = "untracked p e"])
  fix n s assume n: "n \<in> set ns" and s: "untracked p e s"
  show "untracked p e (Inspect (blockVisit p idxs a) n s)"
  proof (rule Inspect_invariant[where P = "untracked p e"])
    fix m t assume m: "m \<in> set (subnodes n)" and t: "untracked p e t"
    show "untracked p e (snd (blockVisit p idxs a m t))"
      using t
    proof (rule blockVisit_untracked)
      fix lhs rhs tg i
      assume "m = AssignStmt lhs rhs" "tg \<in> set lhs" "tg = Ident i"
      with assms(2) n m show "ObjectFor p tg \<noteq> Some e"
        by (intro not_assignsTo[where n = n and m = m]) auto
    qed
  qed (rule s)
qed (rule assms(1))

lemma countEdge_untracked:
  "countEdge x st = Some st1 \<Longrightarrow> untracked p e st \<Longrightarrow> untracked p e st1"
  by (auto simp: countEdge_def untracked_def split: option.splits if_splits)

lemma forChild_untracked:
  "untracked p e st \<Longrightarrow> untracked p e (snd (forChild a i n st))"
  by (auto simp: forChild_def untracked_def)

lemma succLoop_untracked:
  assumes rec: "\<And>s c st st'. rec s c st = Some st' \<Longrightarrow> untracked p e st \<Longrightarrow> untracked p e st'"
  shows "succLoop rec b a n xs st = Some st' \<Longrightarrow> untracked p e st \<Longrightarrow> untracked p e st'"
proof (induction xs arbitrary: st)
  case Nil
  then show ?case by simp
next
  case (Cons x xs)
  obtain i s where x: "x = (i, s)" by (cases x)
  show ?case
  proof (cases "countEdge (b, s) st")
    case None
    then show ?thesis using Cons x by simp
  next
    case (Some st1)
    then obtain st2 where
      run: "rec s (fst (forChild a i n st1)) (snd (forChild a i n st1)) = Some st2"
      and rest: "succLoop rec b a n xs st2 = Some st'"
      using Cons.prems(1) x by (auto split: option.splits)
    have "untracked p e (snd (forChild a i n st1))"
      using countEdge_untracked[OF Some Cons.prems(2)] by (rule forChild_untracked)
    from rec[OF run this] have "untracked p e st2" .
    from Cons.IH[OF rest this] show ?thesis .
  qed
qed

lemma checkBlock_untracked:
  assumes g: "\<not> assignedInGraph p e g"
  shows "checkBlockForLogsAndReturns fuel p idxs g b a st = Some st' \<Longrightarrow>
         untracked p e st \<Longrightarrow> untracked p e st'"
proof (induction fuel arbitrary: b a st st')
  case 0
  then show ?case by simp
next
  case (Suc fuel)
  let ?scan = "fold (Inspect (blockVisit p idxs a)) (Nodes (g ! b)) st"
  let ?rec = "checkBlockForLogsAndReturns fuel p idxs g"
  show ?case
  proof (cases "b \<ge> length g \<or> \<not> Live (g ! b)")
    case True
    then have "st' = st"
      using Suc.prems(1) by (simp split: if_splits)
    then show ?thesis using Suc.prems(2) by simp
  next
    case False
    then have b: "g ! b \<in> set g" by simp
    have loop: "succLoop ?rec b a (length (Succs (g ! b))) (enumerate 0 (Succs (g ! b)))
                  ?scan = Some st'"
      using False Suc.prems(1) by simp
    have "\<forall>n \<in> set (Nodes (g ! b)). \<not> assignsTo p e n"
      using g b by (auto simp: assignedInGraph_def list_ex_iff)
    with Suc.prems(2) have scan: "untracked p e ?scan"
      by (rule scan_untracked)
    have recf: "untracked p e s'"
      if "?rec k c s = Some s'" "untracked p e s" for k c s s'
      using that by (rule Suc.IH)
    show ?thesis
      by (rule succLoop_untracked[where rec = ?rec, OF recf loop scan])
  qed
qed

text \<open>
  C10. For a symbol that no assignment in the blocks of the graph assigns (a
  parameter, a package-level variable), on every graph and with a depth
  allowance above twice the number of edges, the analysis returns, the symbol is
  a key of none of the maps at the end, and no diagnostic is positioned at an
  identifier that resolves to the symbol, however it is logged or returned.
\<close>

theorem unassigned_symbol_exempt:
  assumes "\<not> assignedInGraph p e g"
    and "2 * length (edges g) < fuel"
    and "g \<noteq> []"
  shows "\<exists>st'. checkBlockForLogsAndReturns fuel p idxs g 0 0 initState = Some st'
           \<and> lintLogOrReturnErrors fuel p idxs g = Some (Inr (diags st'))
           \<and> (\<forall>a. heap st' a e = None)
           \<and> (\<forall>d \<in> set (diags st'). ObjectFor p (Ident (d_ident d)) \<noteq> Some e)"
proof -
  have "budget g initState < fuel"
    using budget_initState[of g] assms(2) by simp
  from checkBlock_total[OF this, of p idxs 0 0] obtain st' where
    run: "checkBlockForLogsAndReturns fuel p idxs g 0 0 initState = Some st'"
    by blast
  have "untracked p e initState"
    by (simp add: untracked_def initState_def)
  from checkBlock_untracked[OF assms(1) run this] have "untracked p e st'" .
  then show ?thesis
    using run assms(3) by (simp add: untracked_def lintLogOrReturnErrors_def)
qed

lemma paramErr_not_assigned:
  "\<not> assignedInGraph logPass objErr [handlerBlock [warnErr 30, warnErr 60, returnErr]]"
  by (simp add: assignedInGraph_def assignsTo_def subnodes.simps log_example_defs)

lemma paramErr_run:
  "lintLogOrReturnErrors (Suc 0) logPass [0] [handlerBlock [warnErr 30, warnErr 60, returnErr]]
   = Some (Inr [])"
  by (simp add: lintLogOrReturnErrors_def initState_def Inspect.simps visit_defs
      log_example_defs receiverIsLogger_def)

lemma edges_single: "edges [handlerBlock ns] = []"
  by (simp add: edges_def handlerBlock_def)

theorem unassigned_symbol_exempt_witness:
  "\<not> assignedInGraph logPass objErr [handlerBlock [warnErr 30, warnErr 60, returnErr]]
   \<and> 2 * length (edges [handlerBlock [warnErr 30, warnErr 60, returnErr]]) < 1
   \<and> lintLogOrReturnErrors 1 logPass [0] [handlerBlock [warnErr 30, warnErr 60, returnErr]]
      = Some (Inr [])"
  using unassigned_symbol_exempt
    [of logPass objErr "[handlerBlock [warnErr 30, warnErr 60, returnErr]]" 1 "[0]"]
  by (simp add: paramErr_not_assigned paramErr_run edges_single)

section \<open>Determinism\<close>










end
